theory Spec2Isabelle
  imports Main
begin

section \<open>Strings and paths\<close>

text \<open>
  Python strings are sequences of code points. The model takes the code points 0..255
  (one \<^typ>\<open>char\<close> each) and gives them the classes Python gives them there:
  \<open>is_space\<close> is \<^verbatim>\<open>str.isspace\<close> (which is also the regular expression class
  \<^verbatim>\<open>\s\<close>), \<open>is_word\<close> is the class \<^verbatim>\<open>\w\<close> and \<open>lower\<close> is
  \<^verbatim>\<open>str.lower\<close>.
\<close>

definition is_space :: "char \<Rightarrow> bool" where
  "is_space c = (of_char c \<in> {9, 10, 11, 12, 13, 28, 29, 30, 31, 32, 133, 160 :: nat})"

definition is_word :: "char \<Rightarrow> bool" where
  "is_word c =
     (let n = (of_char c :: nat) in
        (48 \<le> n \<and> n \<le> 57) \<or> (65 \<le> n \<and> n \<le> 90) \<or> n = 95 \<or> (97 \<le> n \<and> n \<le> 122) \<or>
        n = 170 \<or> n = 178 \<or> n = 179 \<or> n = 181 \<or> n = 185 \<or> n = 186 \<or>
        (188 \<le> n \<and> n \<le> 190) \<or> (192 \<le> n \<and> n \<le> 214) \<or> (216 \<le> n \<and> n \<le> 246) \<or>
        248 \<le> n)"

definition lower_char :: "char \<Rightarrow> char" where
  "lower_char c =
     (let n = (of_char c :: nat) in
        if (65 \<le> n \<and> n \<le> 90) \<or> (192 \<le> n \<and> n \<le> 222 \<and> n \<noteq> 215) then char_of (n + 32) else c)"

definition lower :: "string \<Rightarrow> string" where
  "lower s = map lower_char s"

text \<open>\<^verbatim>\<open>s.endswith(e)\<close> and \<^verbatim>\<open>s.endswith((e1, e2, ...))\<close>.\<close>

definition endswith :: "string \<Rightarrow> string \<Rightarrow> bool" where
  "endswith s e = (length e \<le> length s \<and> drop (length s - length e) s = e)"

definition endswith_any :: "string \<Rightarrow> string list \<Rightarrow> bool" where
  "endswith_any s es = list_ex (endswith s) es"

text \<open>\<^verbatim>\<open>s.strip()\<close> and \<^verbatim>\<open>s.strip(chars)\<close>: drop the characters of a class at both ends.\<close>

definition strip :: "(char \<Rightarrow> bool) \<Rightarrow> string \<Rightarrow> string" where
  "strip P s = rev (dropWhile P (rev (dropWhile P s)))"

text \<open>
  The paths are those of \<^verbatim>\<open>posixpath\<close>: \<open>path_join\<close> is \<^verbatim>\<open>os.path.join\<close> of two
  components and \<open>basename\<close> is \<^verbatim>\<open>os.path.basename\<close>, the part after the last
  \<^verbatim>\<open>/\<close>.
\<close>

definition path_join :: "string \<Rightarrow> string \<Rightarrow> string" where
  "path_join a b =
     (if b \<noteq> [] \<and> hd b = CHR ''/'' then b
      else if a = [] \<or> last a = CHR ''/'' then a @ b
      else a @ ''/'' @ b)"

definition basename :: "string \<Rightarrow> string" where
  "basename p = rev (takeWhile (\<lambda>c. c \<noteq> CHR ''/'') (rev p))"

section \<open>The filename sanitizer\<close>

text \<open>\<^verbatim>\<open>re.sub(r'\s+', '_', s)\<close>: every maximal run of whitespace becomes one underscore.\<close>

function collapse_ws :: "string \<Rightarrow> string" where
  "collapse_ws [] = []"
| "collapse_ws (c # cs) =
     (if is_space c then CHR ''_'' # collapse_ws (dropWhile is_space cs)
      else c # collapse_ws cs)"
  by pat_completeness auto
termination
  by (relation "measure length") (auto simp: less_Suc_eq_le length_dropWhile_le)

text \<open>
  \<^verbatim>\<open>
  def sanitize_filename(name):
      s = re.sub(r'[^\w\s.-]', '', name).strip()
      s = re.sub(r'\s+', '_', s)
      s = s.strip('_-')
      return s[:100]
  \<close>
\<close>

definition keep_char :: "char \<Rightarrow> bool" where
  "keep_char c = (is_word c \<or> is_space c \<or> c = CHR ''.'' \<or> c = CHR ''-'')"

definition sanitize_filename :: "string \<Rightarrow> string" where
  "sanitize_filename name =
     (let s = strip is_space (filter keep_char name);
          s = collapse_ws s;
          s = strip (\<lambda>c. c = CHR ''_'' \<or> c = CHR ''-'') s
      in take 100 s)"

section \<open>The download completion detector\<close>

text \<open>
  The detector reads the file system and the clock, which belong to other processes. The
  model makes both explicit. The clock counts whole seconds since \<^verbatim>\<open>timeout_start\<close>
  and only \<^verbatim>\<open>time.sleep\<close> advances it; a read of the file system takes no time.
  The environment says, for every clock reading, what a read would return then:
  \<^item> \<open>listing\<close>: the polled directory is missing, or has these entries, or exists
    and cannot be listed (\<^verbatim>\<open>os.listdir\<close> raises \<^verbatim>\<open>OSError\<close>);
  \<^item> \<open>getmtime\<close>, \<open>getsize\<close>: the value, or \<open>None\<close> where the call raises
    \<^verbatim>\<open>OSError\<close>. Modification times are taken in an integral unit.
\<close>

datatype error = ShutilError | OSError

datatype dir_state = Missing | Entries "string list" | Unlistable

record env =
  listing :: "nat \<Rightarrow> dir_state"
  getmtime :: "nat \<Rightarrow> string \<Rightarrow> int option"
  getsize :: "nat \<Rightarrow> string \<Rightarrow> nat option"

definition partial_extensions :: "string list" where
  "partial_extensions =
     [''.crdownload'', ''.part'', ''.tmp'', ''.torrent'', ''.download'', ''.inprogress'']"

text \<open>
  \<^verbatim>\<open>set(os.listdir(download_dir) if os.path.exists(download_dir) else [])\<close>. The
  order in which Python iterates over a set is not specified; the model iterates in the
  order of the listing.
\<close>

definition current_files :: "env \<Rightarrow> nat \<Rightarrow> error + string list" where
  "current_files E t =
     (case listing E t of
        Missing \<Rightarrow> Inr []
      | Entries l \<Rightarrow> Inr (remdups l)
      | Unlistable \<Rightarrow> Inl OSError)"

text \<open>
  The loop that pairs every candidate with its modification time and skips the
  candidates whose time cannot be read.
\<close>

definition candidate_files_with_mtime ::
  "env \<Rightarrow> nat \<Rightarrow> string \<Rightarrow> string list \<Rightarrow> (string \<times> int) list" where
  "candidate_files_with_mtime E t download_dir new_completed_files =
     List.map_filter
       (\<lambda>f_name. let f_path = path_join download_dir f_name in
          case getmtime E t f_path of None \<Rightarrow> None | Some m \<Rightarrow> Some (f_path, m))
       new_completed_files"

text \<open>
  One pass of the body of the \<^verbatim>\<open>while\<close> loop up to the choice of the top candidate:
  list, subtract the baseline, drop the in-progress names, read the modification times,
  sort by them in decreasing order (Python's sort is stable, also with
  \<^verbatim>\<open>reverse=True\<close>) and take the first.
\<close>

datatype scan_step = NoNewFiles | NoMtime | TopCandidate string

definition poll :: "env \<Rightarrow> string \<Rightarrow> string set \<Rightarrow> nat \<Rightarrow> error + scan_step" where
  "poll E download_dir initial_files t =
     (case current_files E t of
        Inl e \<Rightarrow> Inl e
      | Inr cur \<Rightarrow>
          let new_files_raw = filter (\<lambda>f. f \<notin> initial_files) cur;
              new_completed_files =
                filter (\<lambda>f. \<not> endswith_any (lower f) partial_extensions) new_files_raw
          in if new_completed_files \<noteq> [] then
               let cands = candidate_files_with_mtime E t download_dir new_completed_files
               in if cands = [] then Inr NoMtime
                  else Inr (TopCandidate (fst (hd (sort_key (\<lambda>x. - snd x) cands))))
             else Inr NoNewFiles)"

text \<open>
  \<^verbatim>\<open>for check_attempt in range(25)\<close>: the arguments are the attempts that remain,
  \<^verbatim>\<open>stable_size_checks\<close>, \<^verbatim>\<open>last_known_size\<close> and the clock. Every attempt
  that does not return ends in \<^verbatim>\<open>time.sleep(1)\<close>. The result is the returned value
  and the clock reading at the return.
\<close>

fun size_stable ::
  "env \<Rightarrow> string \<Rightarrow> nat \<Rightarrow> nat \<Rightarrow> int \<Rightarrow> nat \<Rightarrow> string option \<times> nat" where
  "size_stable E downloaded_file_path 0 stable_size_checks last_known_size t = (None, t)"
| "size_stable E downloaded_file_path (Suc n) stable_size_checks last_known_size t =
     (case getsize E t downloaded_file_path of
        None \<Rightarrow> size_stable E downloaded_file_path n 0 last_known_size (t + 1)
      | Some sz \<Rightarrow>
          let current_size = int sz in
          if current_size > 0 \<and> current_size = last_known_size then
            if stable_size_checks + 1 \<ge> 5 then (Some downloaded_file_path, t)
            else size_stable E downloaded_file_path n (stable_size_checks + 1)
                   last_known_size (t + 1)
          else if current_size \<ge> 0 then
            size_stable E downloaded_file_path n (if current_size > 0 then 1 else 0)
              current_size (t + 1)
          else size_stable E downloaded_file_path n stable_size_checks last_known_size (t + 1))"

text \<open>
  \<^verbatim>\<open>while time.time() - timeout_start < timeout\<close>: \<open>t\<close> is the clock reading at the
  loop test. An exception of \<^verbatim>\<open>os.listdir\<close> leaves the function.
\<close>

function scan ::
  "env \<Rightarrow> string \<Rightarrow> string set \<Rightarrow> int \<Rightarrow> nat \<Rightarrow> error + (string option \<times> nat)" where
  "scan E download_dir initial_files timeout t =
     (if int t < timeout then
        (case poll E download_dir initial_files t of
           Inl e \<Rightarrow> Inl e
         | Inr NoMtime \<Rightarrow> scan E download_dir initial_files timeout (t + 1)
         | Inr (TopCandidate downloaded_file_path) \<Rightarrow>
             Inr (size_stable E downloaded_file_path 25 0 (- 1) t)
         | Inr NoNewFiles \<Rightarrow> scan E download_dir initial_files timeout (t + 2))
      else Inr (None, t))"
  by pat_completeness auto
termination
  by (relation "measure (\<lambda>(E, d, i, timeout, t). nat (timeout - int t))") auto

declare scan.simps [simp del]

definition wait_for_download_completion ::
  "env \<Rightarrow> string \<Rightarrow> string set \<Rightarrow> int \<Rightarrow> error + (string option \<times> nat)" where
  "wait_for_download_completion E download_dir initial_files timeout =
     scan E download_dir initial_files timeout 0"

text \<open>
  The clock readings at which the loop lists the directory: the first test of the loop,
  and every test reached after a pass that found nothing to check.
\<close>

inductive polled :: "env \<Rightarrow> string \<Rightarrow> string set \<Rightarrow> int \<Rightarrow> nat \<Rightarrow> bool"
  for E :: env and download_dir :: string and initial_files :: "string set" and timeout :: int
  where
    polled_first: "0 < timeout \<Longrightarrow> polled E download_dir initial_files timeout 0"
  | polled_sleep2:
      "polled E download_dir initial_files timeout t \<Longrightarrow>
       poll E download_dir initial_files t = Inr NoNewFiles \<Longrightarrow>
       int (t + 2) < timeout \<Longrightarrow>
       polled E download_dir initial_files timeout (t + 2)"
  | polled_sleep1:
      "polled E download_dir initial_files timeout t \<Longrightarrow>
       poll E download_dir initial_files t = Inr NoMtime \<Longrightarrow>
       int (t + 1) < timeout \<Longrightarrow>
       polled E download_dir initial_files timeout (t + 1)"

subsection \<open>Example environments\<close>

text \<open>
  Concrete environments on which the detector is evaluated below. The directory is
  \<^verbatim>\<open>d\<close> in all of them.
\<close>

definition E_quiet :: env where
  "E_quiet = \<lparr>listing = (\<lambda>t. Entries [''old.zip'', ''x.zip.crdownload'']),
               getmtime = (\<lambda>t p. Some 0), getsize = (\<lambda>t p. Some 10)\<rparr>"

definition E_missing :: env where
  "E_missing = \<lparr>listing = (\<lambda>t. Missing), getmtime = (\<lambda>t p. None), getsize = (\<lambda>t p. None)\<rparr>"

definition E_unlistable :: env where
  "E_unlistable =
     \<lparr>listing = (\<lambda>t. Unlistable), getmtime = (\<lambda>t p. None), getsize = (\<lambda>t p. None)\<rparr>"

definition E_grow :: env where
  "E_grow = \<lparr>listing = (\<lambda>t. Entries [''f.zip'']), getmtime = (\<lambda>t p. Some 0),
              getsize = (\<lambda>t p. Some (if t = 0 then 5 else 10))\<rparr>"

definition E_partial :: env where
  "E_partial = \<lparr>listing = (\<lambda>t. Entries [''old.zip'', ''a.zip.CRDOWNLOAD'', ''a.zip'']),
                 getmtime = (\<lambda>t p. Some (if p = ''d/a.zip'' then 1 else 9)),
                 getsize = (\<lambda>t p. Some 10)\<rparr>"

definition E_unstable :: env where
  "E_unstable = \<lparr>listing = (\<lambda>t. Entries [''a.zip'', ''b.zip'']),
                  getmtime = (\<lambda>t p. Some (if p = ''d/a.zip'' then 2 else 1)),
                  getsize = (\<lambda>t p. if p = ''d/a.zip'' then Some (t + 1) else Some 7)\<rparr>"

section \<open>The temporary path of a downloaded image\<close>

text \<open>\<^verbatim>\<open>str(n)\<close> of a natural number, as the f-string prints the counter.\<close>

function str_nat :: "nat \<Rightarrow> string" where
  "str_nat n =
     (if n < 10 then [char_of (48 + n)] else str_nat (n div 10) @ [char_of (48 + n mod 10)])"
  by pat_completeness auto
termination
  by (relation "measure id") auto

text \<open>\<^verbatim>\<open>p.rfind(c)\<close>: the last index of \<open>c\<close>, or \<open>-1\<close>.\<close>

definition rfind :: "char \<Rightarrow> string \<Rightarrow> int" where
  "rfind c p =
     (if c \<in> set p then int (length p) - 1 - int (length (takeWhile (\<lambda>x. x \<noteq> c) (rev p)))
      else - 1)"

text \<open>
  \<^verbatim>\<open>os.path.splitext\<close>: split at the last dot of the last component, unless only dots
  precede it there.
\<close>

definition splitext :: "string \<Rightarrow> string \<times> string" where
  "splitext p =
     (let sepIndex = rfind (CHR ''/'') p; dotIndex = rfind (CHR ''.'') p in
      if dotIndex > sepIndex \<and>
         list_ex (\<lambda>c. c \<noteq> CHR ''.'')
           (take (nat (dotIndex - (sepIndex + 1))) (drop (nat (sepIndex + 1)) p))
      then (take (nat dotIndex) p, drop (nat dotIndex) p)
      else (p, []))"

text \<open>
  \<^verbatim>\<open>
  while os.path.exists(initial_file_path):
      initial_file_path = f"{base_temp}_{counter_temp}{ext_temp}"
      counter_temp += 1
  \<close>
  The file system is the predicate \<open>path_exists\<close> on path strings, as the process sees
  them (a relative path is looked up from the working directory). The loop does not end
  when every probed path exists, so the result is optional.
\<close>

partial_function (option) probe ::
  "(string \<Rightarrow> bool) \<Rightarrow> string \<Rightarrow> string \<Rightarrow> nat \<Rightarrow> string \<Rightarrow> string option" where
  "probe path_exists base_temp ext_temp counter_temp initial_file_path =
     (if path_exists initial_file_path then
        probe path_exists base_temp ext_temp (counter_temp + 1)
          (base_temp @ ''_'' @ str_nat counter_temp @ ext_temp)
      else Some initial_file_path)"

declare probe.simps [code]

text \<open>
  The first part of \<^verbatim>\<open>download_image\<close>, up to the path the download is written to:
  the temporary filename (from the argument, or from the URL), \<^verbatim>\<open>splitext\<close>, and the
  loop above.
\<close>

definition download_image_initial_path ::
  "(string \<Rightarrow> bool) \<Rightarrow> string \<Rightarrow> string \<Rightarrow> string option \<Rightarrow> string option" where
  "download_image_initial_path path_exists image_url destination_folder filename =
     (let temp_filename =
            (case filename of
               None \<Rightarrow>
                 let temp = takeWhile (\<lambda>c. c \<noteq> CHR ''?'') (basename image_url) in
                 sanitize_filename (if CHR ''.'' \<notin> set temp then temp @ ''.tmp_ext'' else temp)
             | Some name \<Rightarrow> sanitize_filename name);
          (base_temp, ext_temp) = splitext temp_filename
      in probe path_exists base_temp ext_temp 1 (path_join destination_folder temp_filename))"

section \<open>Moving a model's files to their final folders\<close>

text \<open>
  The record of a model, as \<^verbatim>\<open>scrape_model_details\<close> builds it. The mass is a number
  or the text \<^verbatim>\<open>N/A\<close>; its type is left open.
\<close>

record 'g details =
  title :: string
  description :: string
  images :: "string list"
  grams :: 'g
  tags :: "string list"
  downloaded_filepaths :: "string list"
  downloaded_image_filepaths :: "string list"
  url :: string

text \<open>
  The four directories of step 4, by their entries. A temporary directory may be missing;
  the final ones were created just before (\<^verbatim>\<open>os.makedirs\<close>).
\<close>

record dirs =
  temp_image_subdir :: "string list option"
  temp_files_subdir :: "string list option"
  final_image_destination :: "string list"
  final_files_destination :: "string list"

text \<open>
  \<^verbatim>\<open>shutil.move(os.path.join(src, item_name), dst)\<close> into the existing directory
  \<open>dst\<close>: it raises \<^verbatim>\<open>shutil.Error\<close> when \<open>dst\<close> already has an entry of that name,
  and the rename underneath raises another \<^verbatim>\<open>OSError\<close> when the source entry is gone
  or the operating system refuses (the names in \<open>locked\<close>).
\<close>

definition shutil_move ::
  "string set \<Rightarrow> string \<Rightarrow> string list \<times> string list \<Rightarrow> error + string list \<times> string list" where
  "shutil_move locked item_name sd =
     (case sd of (src, dst) \<Rightarrow>
        if item_name \<in> set dst then Inl ShutilError
        else if item_name \<notin> set src \<or> item_name \<in> locked then Inl OSError
        else Inr (removeAll item_name src, dst @ [item_name]))"

text \<open>
  \<^verbatim>\<open>
  for item_name in os.listdir(src):
      try: shutil.move(os.path.join(src, item_name), dst)
      except shutil.Error as move_e: print(...)
  \<close>
  Only \<^verbatim>\<open>shutil.Error\<close> is caught; any other exception leaves the loop.
\<close>

fun move_all ::
  "string set \<Rightarrow> string list \<Rightarrow> string list \<times> string list \<Rightarrow> error + string list \<times> string list" where
  "move_all locked [] sd = Inr sd"
| "move_all locked (item_name # items) sd =
     (case shutil_move locked item_name sd of
        Inr sd' \<Rightarrow> move_all locked items sd'
      | Inl ShutilError \<Rightarrow> move_all locked items sd
      | Inl OSError \<Rightarrow> Inl OSError)"

definition relocate ::
  "string set \<Rightarrow> string list option \<Rightarrow> string list \<Rightarrow> error + string list option \<times> string list" where
  "relocate locked src dst =
     (case src of
        None \<Rightarrow> Inr (None, dst)
      | Some entries \<Rightarrow>
          (case move_all locked entries (entries, dst) of
             Inl e \<Rightarrow> Inl e
           | Inr (src', dst') \<Rightarrow> Inr (Some src', dst')))"

text \<open>
  The rewrite of the recorded paths: every recorded path, whatever became of its file,
  is replaced by the final directory joined with its basename.
\<close>

definition rewrite_paths :: "string \<Rightarrow> string list \<Rightarrow> string list" where
  "rewrite_paths final_dir paths = map (\<lambda>p. path_join final_dir (basename p)) paths"

text \<open>
  Step 4 of the main loop: move the images, move the files, rewrite both path lists.
  \<open>image_dest\<close> and \<open>files_dest\<close> are the paths of the two final directories.
\<close>

definition move_and_rewrite ::
  "string set \<Rightarrow> string \<Rightarrow> string \<Rightarrow> dirs \<Rightarrow> 'g details \<Rightarrow> error + dirs \<times> 'g details" where
  "move_and_rewrite locked image_dest files_dest d det =
     (case relocate locked (temp_image_subdir d) (final_image_destination d) of
        Inl e \<Rightarrow> Inl e
      | Inr (ti, fi) \<Rightarrow>
          (case relocate locked (temp_files_subdir d) (final_files_destination d) of
             Inl e \<Rightarrow> Inl e
           | Inr (tf, ff) \<Rightarrow>
               Inr (\<lparr>temp_image_subdir = ti, temp_files_subdir = tf,
                      final_image_destination = fi, final_files_destination = ff\<rparr>,
                    det\<lparr>downloaded_filepaths :=
                          rewrite_paths files_dest (downloaded_filepaths det),
                        downloaded_image_filepaths :=
                          rewrite_paths image_dest (downloaded_image_filepaths det)\<rparr>)))"

subsection \<open>Example states\<close>

text \<open>
  A record with the given list of downloaded files, and states of the directories: two
  where the temporary files directory holds \<^verbatim>\<open>a\<close> and \<^verbatim>\<open>b\<close>, listed in either
  order, and the final one already has an entry \<^verbatim>\<open>b\<close>, and one where both
  temporary directories are empty.
\<close>

definition example_details :: "string list \<Rightarrow> unit details" where
  "example_details paths =
     \<lparr>title = ''Bracket'', description = ''N/A'', images = [], grams = (),
      tags = [''tools''], downloaded_filepaths = paths, downloaded_image_filepaths = [],
      url = ''https://www.printables.com/model/1''\<rparr>"

definition dirs_ab :: dirs where
  "dirs_ab = \<lparr>temp_image_subdir = Some [], temp_files_subdir = Some [''a'', ''b''],
              final_image_destination = [], final_files_destination = [''b'']\<rparr>"

definition dirs_ba :: dirs where
  "dirs_ba = \<lparr>temp_image_subdir = Some [], temp_files_subdir = Some [''b'', ''a''],
              final_image_destination = [], final_files_destination = [''b'']\<rparr>"


section \<open>Properties of the sanitizer\<close>

lemma set_strip: "set (strip P s) \<subseteq> set s"
proof -
  have "set (strip P s) \<subseteq> set (dropWhile P s)"
    unfolding strip_def using set_dropWhileD [of _ P "rev (dropWhile P s)"] by auto
  also have "\<dots> \<subseteq> set s"
    using set_dropWhileD [of _ P s] by auto
  finally show ?thesis .
qed

lemma set_collapse_ws: "set (collapse_ws s) \<subseteq> insert (CHR ''_'') {c \<in> set s. \<not> is_space c}"
proof (induction s rule: collapse_ws.induct)
  case 1
  show ?case by simp
next
  case (2 c cs)
  show ?case
  proof (cases "is_space c")
    case True
    have "set (dropWhile is_space cs) \<subseteq> set cs"
      using set_dropWhileD [of _ is_space cs] by auto
    with True "2.IH"(1) show ?thesis by auto
  next
    case False
    with "2.IH"(2) show ?thesis by auto
  qed
qed

lemma sanitize_filename_chars:
  "set (sanitize_filename name) \<subseteq> {c. is_word c \<or> c = CHR ''.'' \<or> c = CHR ''-''}"
proof -
  let ?s1 = "strip is_space (filter keep_char name)"
  have s1: "set ?s1 \<subseteq> {c. keep_char c}"
    using set_strip [of is_space "filter keep_char name"] by auto
  have "set (collapse_ws ?s1) \<subseteq> insert (CHR ''_'') {c \<in> set ?s1. \<not> is_space c}"
    by (rule set_collapse_ws)
  also have "\<dots> \<subseteq> {c. is_word c \<or> c = CHR ''.'' \<or> c = CHR ''-''}"
    using s1 by (auto simp: keep_char_def is_word_def)
  finally have s2: "set (collapse_ws ?s1) \<subseteq> {c. is_word c \<or> c = CHR ''.'' \<or> c = CHR ''-''}" .
  have "set (sanitize_filename name)
          \<subseteq> set (strip (\<lambda>c. c = CHR ''_'' \<or> c = CHR ''-'') (collapse_ws ?s1))"
    unfolding sanitize_filename_def Let_def by (rule set_take_subset)
  also have "\<dots> \<subseteq> set (collapse_ws ?s1)"
    by (rule set_strip)
  finally show ?thesis using s2 by blast
qed

text \<open>
  C6 (as amended). For every input the output of \<open>sanitize_filename\<close> contains no path
  separator, neither \<^verbatim>\<open>/\<close> nor the backslash, and it is at most 100 characters long.
  The segment \<^verbatim>\<open>..\<close> is not rejected: dots are kept by the character filter and no
  later step removes them.
\<close>

theorem sanitize_filename_no_separator:
  "CHR ''/'' \<notin> set (sanitize_filename name) \<and> CHR 0x5C \<notin> set (sanitize_filename name)
   \<and> length (sanitize_filename name) \<le> 100"
proof -
  have "\<not> is_word (CHR ''/'')" "\<not> is_word (CHR 0x5C)"
    by (simp_all add: is_word_def)
  moreover have "length (sanitize_filename name) \<le> 100"
    by (simp add: sanitize_filename_def Let_def)
  ultimately show ?thesis
    using sanitize_filename_chars [of name] by auto
qed

text \<open>
  C6 (as stated) fails: the sanitizer returns the path-traversal segment \<^verbatim>\<open>..\<close>
  when that is its input.
\<close>

theorem sanitize_filename_dotdot: "sanitize_filename ''..'' = ''..''"
  by (simp add: sanitize_filename_def strip_def keep_char_def is_space_def is_word_def)


section \<open>Properties of paths and of one scanning pass\<close>

lemma basename_append_slash: "basename (a @ CHR ''/'' # b) = basename b"
  by (simp add: basename_def takeWhile_tail)

lemma basename_append_last_slash:
  assumes "a \<noteq> []" "last a = CHR ''/''"
  shows "basename (a @ b) = basename b"
proof -
  from assms obtain a' where "a = a' @ [CHR ''/'']"
    by (metis append_butlast_last_id)
  then show ?thesis using basename_append_slash [of a' b] by simp
qed

lemma basename_path_join: "basename (path_join a b) = basename b"
proof (cases "b \<noteq> [] \<and> hd b = CHR ''/''")
  case True
  then show ?thesis by (simp add: path_join_def)
next
  case False
  show ?thesis
  proof (cases "a = []")
    case True
    with False show ?thesis by (simp add: path_join_def)
  next
    case nonempty: False
    show ?thesis
    proof (cases "last a = CHR ''/''")
      case True
      with False nonempty show ?thesis
        by (simp add: path_join_def basename_append_last_slash)
    next
      case no_slash: False
      with False nonempty show ?thesis
        using basename_append_slash [of a b] by (simp add: path_join_def)
    qed
  qed
qed


lemma poll_TopCandidateD:
  assumes "poll E download_dir initial_files t = Inr (TopCandidate p)"
  shows "\<exists>f l. listing E t = Entries l \<and> f \<in> set l \<and> f \<notin> initial_files
           \<and> \<not> endswith_any (lower f) partial_extensions \<and> p = path_join download_dir f
           \<and> getmtime E t p \<noteq> None"
proof -
  from assms obtain cur where cur: "current_files E t = Inr cur"
    by (auto simp: poll_def split: sum.splits)
  define completed where
    "completed = filter (\<lambda>f. \<not> endswith_any (lower f) partial_extensions)
                   (filter (\<lambda>f. f \<notin> initial_files) cur)"
  define cands where "cands = candidate_files_with_mtime E t download_dir completed"
  from assms cur have ne: "cands \<noteq> []"
    and p: "p = fst (hd (sort_key (\<lambda>x. - snd x) cands))"
    by (auto simp: poll_def Let_def cands_def completed_def split: if_splits)
  from ne have "hd (sort_key (\<lambda>x. - snd x) cands) \<in> set (sort_key (\<lambda>x. - snd x) cands)"
    by (intro hd_in_set) (metis length_sort length_0_conv)
  then have "hd (sort_key (\<lambda>x. - snd x) cands) \<in> set cands" by simp
  then obtain m where "(p, m) \<in> set cands"
    using p by (metis prod.collapse)
  then obtain f where f: "f \<in> set completed" "p = path_join download_dir f"
    "getmtime E t p = Some m"
    by (auto simp: cands_def candidate_files_with_mtime_def List.map_filter_def Let_def
             split: option.splits)
  from f(1) have fc: "f \<in> set cur" "f \<notin> initial_files"
    "\<not> endswith_any (lower f) partial_extensions"
    by (auto simp: completed_def)
  from cur fc(1) obtain l where l: "listing E t = Entries l" "f \<in> set l"
    by (auto simp: current_files_def split: dir_state.splits)
  with fc f show ?thesis by auto
qed

section \<open>Properties of the stability loop\<close>

lemma size_stable_cases:
  "size_stable E p n st lk t = (None, t + n) \<or>
   (\<exists>r. size_stable E p n st lk t = (Some p, r) \<and> r < t + n)"
proof (induction n arbitrary: st lk t)
  case 0
  show ?case by simp
next
  case (Suc n)
  show ?case
  proof (cases "getsize E t p")
    case None
    with Suc [of 0 lk "t + 1"] show ?thesis by auto
  next
    case (Some sz)
    show ?thesis
      using Some Suc [of "st + 1" lk "t + 1"] Suc [of "if int sz > 0 then 1 else 0" "int sz" "t + 1"]
      by (auto simp: Let_def)
  qed
qed

lemma size_stable_window:
  assumes "size_stable E p n st lk t = (Some q, r)"
    and "\<forall>j<st. getsize E (t - Suc j) p = Some (nat lk)"
    and "st > 0 \<longrightarrow> lk > 0"
    and "u + st \<le> t"
  shows "q = p \<and> u + 4 \<le> r \<and> r < t + n \<and> (\<exists>s>0. \<forall>j\<le>4. getsize E (r - j) p = Some s)"
  using assms
proof (induction n arbitrary: st lk t)
  case 0
  then show ?case by simp
next
  case (Suc n)
  show ?case
  proof (cases "getsize E t p")
    case None
    with Suc.prems(1) have "size_stable E p n 0 lk (t + 1) = (Some q, r)" by simp
    from Suc.IH [OF this] Suc.prems(4) show ?thesis by auto
  next
    case (Some sz)
    show ?thesis
    proof (cases "int sz > 0 \<and> int sz = lk")
      case same: True
      show ?thesis
      proof (cases "st + 1 \<ge> 5")
        case True
        with Suc.prems(1) Some same have qr: "q = p" "r = t" by (simp_all add: Let_def)
        have "\<forall>j\<le>4. getsize E (t - j) p = Some sz"
        proof (intro allI impI)
          fix j :: nat assume "j \<le> 4"
          show "getsize E (t - j) p = Some sz"
          proof (cases j)
            case 0
            with Some show ?thesis by simp
          next
            case (Suc k)
            with \<open>j \<le> 4\<close> True have "k < st" by simp
            with Suc.prems(2) have "getsize E (t - Suc k) p = Some (nat lk)" by blast
            with same Suc show ?thesis by auto
          qed
        qed
        moreover from True Suc.prems(4) have "u + 4 \<le> t" by simp
        moreover from same have "sz > 0" by simp
        ultimately show ?thesis using qr by auto
      next
        case False
        with Suc.prems(1) Some same
        have rec: "size_stable E p n (st + 1) lk (t + 1) = (Some q, r)" by (simp add: Let_def)
        have inv: "\<forall>j<st + 1. getsize E (t + 1 - Suc j) p = Some (nat lk)"
        proof (intro allI impI)
          fix j assume "j < st + 1"
          show "getsize E (t + 1 - Suc j) p = Some (nat lk)"
          proof (cases j)
            case 0
            with Some same show ?thesis by auto
          next
            case (Suc k)
            with \<open>j < st + 1\<close> Suc.prems(2) show ?thesis by simp
          qed
        qed
        from Suc.IH [OF rec inv] same Suc.prems(4) show ?thesis by auto
      qed
    next
      case changed: False
      with Suc.prems(1) Some
      have rec: "size_stable E p n (if int sz > 0 then 1 else 0) (int sz) (t + 1) = (Some q, r)"
        by (auto simp: Let_def)
      have inv: "\<forall>j<(if int sz > 0 then 1 else 0). getsize E (t + 1 - Suc j) p = Some (nat (int sz))"
        using Some by auto
      from Suc.IH [OF rec inv] Suc.prems(4) show ?thesis by auto
    qed
  qed
qed

section \<open>Properties of the scanning loop\<close>

lemma polled_less: "polled E d i timeout t \<Longrightarrow> int t < timeout"
  by (induction rule: polled.induct) auto

lemma polled_scan:
  "polled E d i timeout t \<Longrightarrow> scan E d i timeout 0 = scan E d i timeout t"
proof (induction rule: polled.induct)
  case polled_first
  show ?case by simp
next
  case (polled_sleep2 t)
  from polled_less [OF polled_sleep2.hyps(1)] polled_sleep2.hyps(2)
  have "scan E d i timeout t = scan E d i timeout (t + 2)"
    by (subst scan.simps) simp
  with polled_sleep2.IH show ?case by simp
next
  case (polled_sleep1 t)
  from polled_less [OF polled_sleep1.hyps(1)] polled_sleep1.hyps(2)
  have "scan E d i timeout t = scan E d i timeout (t + 1)"
    by (subst scan.simps) simp
  with polled_sleep1.IH show ?case by simp
qed

lemma scan_SomeD:
  "polled E d i timeout t \<Longrightarrow> scan E d i timeout t = Inr (Some p, r) \<Longrightarrow>
   \<exists>u q. polled E d i timeout u \<and> poll E d i u = Inr (TopCandidate q)
         \<and> size_stable E q 25 0 (- 1) u = (Some p, r)"
proof (induction E d i timeout t rule: scan.induct)
  case (1 E d i timeout t)
  from polled_less [OF "1.prems"(1)] have lt: "int t < timeout" .
  show ?case
  proof (cases "poll E d i t")
    case (Inl e)
    with lt "1.prems"(2) show ?thesis by (subst (asm) scan.simps) simp
  next
    case (Inr step)
    show ?thesis
    proof (cases step)
      case NoNewFiles
      with Inr lt "1.prems"(2) have next_scan: "scan E d i timeout (t + 2) = Inr (Some p, r)"
        by (subst (asm) scan.simps) simp
      then have "int (t + 2) < timeout"
        by (subst (asm) scan.simps) (auto split: if_splits)
      then have "polled E d i timeout (t + 2)"
        using "1.prems"(1) Inr NoNewFiles by (intro polled_sleep2) simp_all
      from "1.IH"(1) [OF lt _ _ this next_scan] Inr NoNewFiles show ?thesis by simp
    next
      case NoMtime
      with Inr lt "1.prems"(2) have next_scan: "scan E d i timeout (t + 1) = Inr (Some p, r)"
        by (subst (asm) scan.simps) simp
      then have "int (t + 1) < timeout"
        by (subst (asm) scan.simps) (auto split: if_splits)
      then have "polled E d i timeout (t + 1)"
        using "1.prems"(1) Inr NoMtime by (intro polled_sleep1) simp_all
      from "1.IH"(2) [OF lt _ _ this next_scan] Inr NoMtime show ?thesis by simp
    next
      case (TopCandidate q)
      with Inr lt "1.prems"(2) have "size_stable E q 25 0 (- 1) t = (Some p, r)"
        by (subst (asm) scan.simps) simp
      with "1.prems"(1) Inr TopCandidate show ?thesis by blast
    qed
  qed
qed

lemma scan_quiet:
  "(\<And>u. t \<le> u \<Longrightarrow> poll E d i u = Inr NoNewFiles) \<Longrightarrow>
   scan E d i timeout t = Inr (None, t + 2 * nat ((timeout - int t + 1) div 2))"
proof (induction E d i timeout t rule: scan.induct)
  case (1 E d i timeout t)
  show ?case
  proof (cases "int t < timeout")
    case True
    have p: "poll E d i t = Inr NoNewFiles" using "1.prems" by simp
    have "scan E d i timeout t = scan E d i timeout (t + 2)"
      using True p by (subst scan.simps) simp
    also have "\<dots> = Inr (None, t + 2 + 2 * nat ((timeout - int (t + 2) + 1) div 2))"
    proof (rule "1.IH"(1) [OF True p])
      fix u assume "t + 2 \<le> u"
      then show "poll E d i u = Inr NoNewFiles" using "1.prems" by simp
    qed simp
    also have "t + 2 + 2 * nat ((timeout - int (t + 2) + 1) div 2)
                 = t + 2 * nat ((timeout - int t + 1) div 2)"
    proof -
      define k where "k = (timeout - int t - 1) div 2"
      have "0 \<le> k" using True by (simp add: k_def)
      moreover have "(timeout - int t + 1) div 2 = k + 1"
        unfolding k_def by presburger
      moreover have "(timeout - int (t + 2) + 1) div 2 = k"
        unfolding k_def by simp
      ultimately show ?thesis by (simp add: nat_add_distrib)
    qed
    finally show ?thesis .
  next
    case False
    then have "nat ((timeout - int t + 1) div 2) = 0" by simp
    with False show ?thesis by (subst scan.simps) simp
  qed
qed


section \<open>Nothing new appears\<close>

lemma poll_quiet:
  assumes "case listing E t of Missing \<Rightarrow> True | Unlistable \<Rightarrow> False
           | Entries l \<Rightarrow> \<forall>f\<in>set l. f \<notin> initial_files \<longrightarrow> endswith_any (lower f) partial_extensions"
  shows "poll E download_dir initial_files t = Inr NoNewFiles"
  using assms
  by (auto simp: poll_def current_files_def Let_def filter_empty_conv split: dir_state.splits)

text \<open>
  C1 (as stated) fails in two ways. A directory that exists and cannot be listed makes
  \<^verbatim>\<open>os.listdir\<close> raise, and nothing in the function catches it: no new file ever
  appears in \<open>E_unlistable\<close>, and the call ends in \<^verbatim>\<open>OSError\<close>, not in \<open>None\<close>.
  And with a negative timeout the call returns at clock reading 0, which is later than
  the timeout plus two seconds.
\<close>

theorem wait_for_download_completion_raises_counterexample:
  "wait_for_download_completion E_unlistable ''d'' {} 5 = Inl OSError
   \<and> wait_for_download_completion E_quiet ''d'' {''old.zip''} (- 5) = Inr (None, 0)
   \<and> \<not> (int 0 \<le> - 5 + 2)"
proof -
  have "wait_for_download_completion E_unlistable ''d'' {} 5 = Inl OSError"
    by code_simp
  moreover have "wait_for_download_completion E_quiet ''d'' {''old.zip''} (- 5) = Inr (None, 0)"
    by code_simp
  ultimately show ?thesis by simp
qed

text \<open>
  C1 (as amended). Suppose that at every clock reading the directory is missing or can be
  listed, and every entry that is not in the baseline ends in an in-progress suffix. Then
  \<open>wait_for_download_completion\<close> returns \<open>None\<close> as a value (\<open>Inr\<close>, no
  exception), and for a timeout that is not negative it returns no later than the timeout
  plus one poll interval of two seconds.
\<close>

theorem wait_for_download_completion_quiet:
  assumes "0 \<le> timeout"
    and "\<And>t. case listing E t of Missing \<Rightarrow> True | Unlistable \<Rightarrow> False
           | Entries l \<Rightarrow> \<forall>f\<in>set l. f \<notin> initial_files \<longrightarrow> endswith_any (lower f) partial_extensions"
  shows "\<exists>r. wait_for_download_completion E download_dir initial_files timeout = Inr (None, r)
             \<and> int r \<le> timeout + 2"
proof -
  have "scan E download_dir initial_files timeout 0
          = Inr (None, 0 + 2 * nat ((timeout - int 0 + 1) div 2))"
    by (rule scan_quiet) (rule poll_quiet, rule assms(2))
  moreover have "int (2 * nat ((timeout + 1) div 2)) \<le> timeout + 2"
    using assms(1) by simp
  ultimately show ?thesis
    by (simp add: wait_for_download_completion_def)
qed

lemma E_quiet_listing:
  "case listing E_quiet t of Missing \<Rightarrow> True | Unlistable \<Rightarrow> False
   | Entries l \<Rightarrow> \<forall>f\<in>set l. f \<notin> {''old.zip''} \<longrightarrow> endswith_any (lower f) partial_extensions"
  by (simp add: E_quiet_def endswith_any_def endswith_def partial_extensions_def lower_def lower_char_def)

text \<open>
  In \<open>E_quiet\<close> the only new entry is \<^verbatim>\<open>x.zip.crdownload\<close>, with a stable size.
\<close>

theorem wait_for_download_completion_quiet_witness:
  "(0::int) \<le> 5 \<and> wait_for_download_completion E_quiet ''d'' {''old.zip''} 5 = Inr (None, 6)
   \<and> int 6 \<le> 5 + 2"
proof -
  have r: "wait_for_download_completion E_quiet ''d'' {''old.zip''} 5 = Inr (None, 6)"
    by code_simp
  have "(0::int) \<le> 5" by simp
  from wait_for_download_completion_quiet
         [where E = E_quiet and initial_files = "{''old.zip''}" and download_dir = "''d''",
          OF this E_quiet_listing]
  show ?thesis using r by simp
qed

text \<open>
  C9. When the polled directory does not exist, every poll takes the listing to be empty,
  no exception is raised, and the call returns \<open>None\<close> at the first even clock reading
  that is not below the timeout: the timeout has elapsed then.
\<close>

theorem wait_for_download_completion_missing_dir:
  assumes "\<And>t. listing E t = Missing"
  shows "(\<forall>t. current_files E t = Inr [])
         \<and> wait_for_download_completion E download_dir initial_files timeout
             = Inr (None, 2 * nat ((timeout + 1) div 2))
         \<and> timeout \<le> int (2 * nat ((timeout + 1) div 2))"
proof -
  have "scan E download_dir initial_files timeout 0
          = Inr (None, 0 + 2 * nat ((timeout - int 0 + 1) div 2))"
    by (rule scan_quiet) (rule poll_quiet, simp add: assms)
  moreover have "timeout \<le> int (2 * nat ((timeout + 1) div 2))"
    by simp presburger
  ultimately show ?thesis
    by (simp add: wait_for_download_completion_def current_files_def assms)
qed

theorem wait_for_download_completion_missing_dir_witness:
  "wait_for_download_completion E_missing ''d'' {} 5 = Inr (None, 6)"
  using wait_for_download_completion_missing_dir
          [where E = E_missing and download_dir = "''d''" and initial_files = "{}" and timeout = 5]
  by (simp add: E_missing_def)


section \<open>What a returned path is\<close>

lemma wait_SomeD:
  assumes "wait_for_download_completion E d i timeout = Inr (Some p, r)"
  shows "\<exists>u. polled E d i timeout u \<and> poll E d i u = Inr (TopCandidate p)
           \<and> size_stable E p 25 0 (- 1) u = (Some p, r)"
proof -
  from assms have s0: "scan E d i timeout 0 = Inr (Some p, r)"
    by (simp add: wait_for_download_completion_def)
  then have "0 < timeout"
    by (subst (asm) scan.simps) (auto split: if_splits)
  then have "polled E d i timeout 0" by (rule polled_first)
  from scan_SomeD [OF this s0] obtain u q where
    u: "polled E d i timeout u" "poll E d i u = Inr (TopCandidate q)"
       "size_stable E q 25 0 (- 1) u = (Some p, r)"
    by blast
  from size_stable_cases [of E q 25 0 "- 1" u] u(3) have "p = q" by auto
  with u show ?thesis by blast
qed

lemma E_grow_result:
  "wait_for_download_completion E_grow ''d'' {} 180 = Inr (Some ''d/f.zip'', 5)"
  by code_simp

text \<open>
  C2 (as stated) fails. In \<open>E_grow\<close> the only new file has 5 bytes at clock reading 0
  and 10 bytes from reading 1 on. The detector returns its path at reading 5, which is 4
  seconds, not 5, after the size last changed: the reading that first sees the final size
  sets \<^verbatim>\<open>stable_size_checks\<close> to 1, so the five equal readings span four sleeps.
\<close>

theorem stable_five_seconds_counterexample:
  "wait_for_download_completion E_grow ''d'' {} 180 = Inr (Some ''d/f.zip'', 5)
   \<and> getsize E_grow 1 ''d/f.zip'' \<noteq> getsize E_grow 0 ''d/f.zip''
   \<and> \<not> (1 + 5 \<le> (5::nat))"
  using E_grow_result by (simp add: E_grow_def)

text \<open>
  C2 (as amended). Whenever \<open>wait_for_download_completion\<close> returns a path at clock
  reading \<open>r\<close>, that path was the top candidate of a poll at some reading \<open>u\<close> with
  \<open>u + 4 \<le> r\<close>, the five size readings at the one-second ticks \<open>r - 4, \<dots>, r\<close>
  all succeeded with the same non-zero size, and hence the path is returned no earlier
  than 4 seconds after the size last changed.
\<close>

theorem wait_for_download_completion_stable_readings:
  assumes "wait_for_download_completion E download_dir initial_files timeout = Inr (Some p, r)"
  shows "\<exists>u s. polled E download_dir initial_files timeout u
           \<and> poll E download_dir initial_files u = Inr (TopCandidate p)
           \<and> u + 4 \<le> r \<and> 0 < s \<and> (\<forall>j\<le>4. getsize E (r - j) p = Some s)
           \<and> (\<forall>c. 0 < c \<and> c \<le> r \<and> getsize E c p \<noteq> getsize E (c - 1) p \<longrightarrow> c + 4 \<le> r)"
proof -
  from wait_SomeD [OF assms] obtain u where
    u: "polled E download_dir initial_files timeout u"
       "poll E download_dir initial_files u = Inr (TopCandidate p)"
       "size_stable E p 25 0 (- 1) u = (Some p, r)"
    by blast
  from size_stable_window [OF u(3), of u] obtain s where
    s: "u + 4 \<le> r" "0 < s" "\<forall>j\<le>4. getsize E (r - j) p = Some s"
    by auto
  have "c + 4 \<le> r" if c: "0 < c" "c \<le> r" "getsize E c p \<noteq> getsize E (c - 1) p" for c
  proof (rule ccontr)
    assume "\<not> c + 4 \<le> r"
    with c have "r - c \<le> 4" "r - (r - c) = c" "Suc (r - c) \<le> 4" "r - Suc (r - c) = c - 1"
      by auto
    with s(3) have "getsize E c p = Some s" "getsize E (c - 1) p = Some s"
      by metis+
    with c(3) show False by simp
  qed
  with u s show ?thesis by blast
qed

theorem wait_for_download_completion_stable_readings_witness:
  "wait_for_download_completion E_grow ''d'' {} 180 = Inr (Some ''d/f.zip'', 5)
   \<and> getsize E_grow 1 ''d/f.zip'' = Some 10 \<and> getsize E_grow 2 ''d/f.zip'' = Some 10
   \<and> getsize E_grow 3 ''d/f.zip'' = Some 10 \<and> getsize E_grow 4 ''d/f.zip'' = Some 10
   \<and> getsize E_grow 5 ''d/f.zip'' = Some 10
   \<and> getsize E_grow 1 ''d/f.zip'' \<noteq> getsize E_grow 0 ''d/f.zip''
   \<and> (1::nat) + 4 \<le> 5"
proof -
  have "getsize E_grow 1 ''d/f.zip'' = Some 10" "getsize E_grow 2 ''d/f.zip'' = Some 10"
    "getsize E_grow 3 ''d/f.zip'' = Some 10" "getsize E_grow 4 ''d/f.zip'' = Some 10"
    "getsize E_grow 5 ''d/f.zip'' = Some 10"
    "getsize E_grow 1 ''d/f.zip'' \<noteq> getsize E_grow 0 ''d/f.zip''"
    by (simp_all add: E_grow_def)
  then show ?thesis
    using wait_for_download_completion_stable_readings [OF E_grow_result] E_grow_result
    by simp
qed

lemma endswith_append: "endswith b e \<Longrightarrow> endswith (a @ b) e"
  by (auto simp: endswith_def)

lemma basename_suffix: "\<exists>pre. p = pre @ basename p"
proof -
  have "rev p = takeWhile (\<lambda>c. c \<noteq> CHR ''/'') (rev p) @ dropWhile (\<lambda>c. c \<noteq> CHR ''/'') (rev p)"
    by simp
  then have "p = rev (dropWhile (\<lambda>c. c \<noteq> CHR ''/'') (rev p)) @ basename p"
    unfolding basename_def by (metis rev_append rev_rev_ident)
  then show ?thesis ..
qed

text \<open>
  C3. A path returned by \<open>wait_for_download_completion\<close> never has a filename that
  ends, in any letter case, in one of the in-progress suffixes.
\<close>

theorem wait_for_download_completion_never_partial:
  assumes "wait_for_download_completion E download_dir initial_files timeout = Inr (Some p, r)"
  shows "\<not> endswith_any (lower (basename p)) partial_extensions"
proof
  assume partial: "endswith_any (lower (basename p)) partial_extensions"
  from wait_SomeD [OF assms] obtain u where
    "poll E download_dir initial_files u = Inr (TopCandidate p)" by blast
  from poll_TopCandidateD [OF this] obtain f where
    f: "\<not> endswith_any (lower f) partial_extensions" "p = path_join download_dir f"
    by blast
  from f(2) have "basename p = basename f" by (simp add: basename_path_join)
  moreover obtain pre where "f = pre @ basename f" using basename_suffix by blast
  ultimately have "lower f = lower pre @ lower (basename p)"
    by (metis lower_def map_append)
  with partial have "endswith_any (lower f) partial_extensions"
    by (auto simp: endswith_any_def list_ex_iff intro: endswith_append)
  with f(1) show False by simp
qed

lemma E_partial_result:
  "wait_for_download_completion E_partial ''d'' {''old.zip''} 180 = Inr (Some ''d/a.zip'', 4)"
  by code_simp

text \<open>
  In \<open>E_partial\<close> the entry \<^verbatim>\<open>a.zip.CRDOWNLOAD\<close> is new, has the latest
  modification time and a stable size; the path returned is that of \<^verbatim>\<open>a.zip\<close>.
\<close>

theorem wait_for_download_completion_never_partial_witness:
  "wait_for_download_completion E_partial ''d'' {''old.zip''} 180 = Inr (Some ''d/a.zip'', 4)
   \<and> \<not> endswith_any (lower (basename ''d/a.zip'')) partial_extensions"
  using wait_for_download_completion_never_partial [OF E_partial_result] E_partial_result
  by simp

text \<open>
  C10. Every path returned by \<open>wait_for_download_completion\<close> is \<open>download_dir\<close>
  joined with a filename that was in a listing the loop took during the call and that is
  not in the baseline \<open>initial_files\<close>.
\<close>

theorem wait_for_download_completion_result_new:
  assumes "wait_for_download_completion E download_dir initial_files timeout = Inr (Some p, r)"
  shows "\<exists>t f l. polled E download_dir initial_files timeout t \<and> t \<le> r
           \<and> listing E t = Entries l \<and> f \<in> set l \<and> f \<notin> initial_files
           \<and> p = path_join download_dir f"
proof -
  from wait_SomeD [OF assms] obtain u where
    u: "polled E download_dir initial_files timeout u"
       "poll E download_dir initial_files u = Inr (TopCandidate p)"
       "size_stable E p 25 0 (- 1) u = (Some p, r)"
    by blast
  from size_stable_window [OF u(3), of u] have "u \<le> r" by auto
  with u(1) poll_TopCandidateD [OF u(2)] show ?thesis by blast
qed

theorem wait_for_download_completion_result_new_witness:
  "wait_for_download_completion E_partial ''d'' {''old.zip''} 180 = Inr (Some ''d/a.zip'', 4)
   \<and> (\<exists>t f l. polled E_partial ''d'' {''old.zip''} 180 t \<and> t \<le> 4
         \<and> listing E_partial t = Entries l \<and> f \<in> set l \<and> f \<notin> {''old.zip''}
         \<and> ''d/a.zip'' = path_join ''d'' f)"
  using wait_for_download_completion_result_new [OF E_partial_result] E_partial_result
  by simp

text \<open>
  C7. Let the loop poll at clock reading \<open>t\<close> and choose the candidate \<open>p\<close>. If no five
  consecutive readings of the size of \<open>p\<close> among the 25 ticks from \<open>t\<close> are equal and
  non-zero, the call returns \<open>None\<close> at reading \<open>t + 25\<close>, when the budget ends: the
  directory is not listed again, whatever else it holds and however much of the timeout
  is left.
\<close>

theorem stability_budget_exhausted:
  assumes "polled E download_dir initial_files timeout t"
    and "poll E download_dir initial_files t = Inr (TopCandidate p)"
    and "\<forall>r. t + 4 \<le> r \<and> r < t + 25 \<longrightarrow> \<not> (\<exists>s>0. \<forall>j\<le>4. getsize E (r - j) p = Some s)"
  shows "wait_for_download_completion E download_dir initial_files timeout = Inr (None, t + 25)"
proof -
  have "size_stable E p 25 0 (- 1) t = (None, t + 25)"
  proof (rule ccontr)
    assume "size_stable E p 25 0 (- 1) t \<noteq> (None, t + 25)"
    with size_stable_cases [of E p 25 0 "- 1" t] obtain r where
      r: "size_stable E p 25 0 (- 1) t = (Some p, r)" by blast
    from size_stable_window [OF r, of t] obtain s where
      "t + 4 \<le> r" "r < t + 25" "0 < s" "\<forall>j\<le>4. getsize E (r - j) p = Some s"
      by auto
    with assms(3) show False by blast
  qed
  moreover from polled_less [OF assms(1)] assms(2)
  have "scan E download_dir initial_files timeout t = Inr (size_stable E p 25 0 (- 1) t)"
    by (subst scan.simps) simp
  ultimately show ?thesis
    using polled_scan [OF assms(1)] by (simp add: wait_for_download_completion_def)
qed

lemma E_unstable_poll: "poll E_unstable ''d'' {} 0 = Inr (TopCandidate ''d/a.zip'')"
  by code_simp

lemma E_unstable_sizes:
  "\<forall>r. 0 + 4 \<le> r \<and> r < 0 + 25 \<longrightarrow>
       \<not> (\<exists>s>0. \<forall>j\<le>4. getsize E_unstable (r - j) ''d/a.zip'' = Some s)"
proof (intro allI impI notI)
  fix r :: nat
  assume r: "0 + 4 \<le> r \<and> r < 0 + 25"
    and "\<exists>s>0. \<forall>j\<le>4. getsize E_unstable (r - j) ''d/a.zip'' = Some s"
  then obtain s where s: "\<forall>j\<le>4. getsize E_unstable (r - j) ''d/a.zip'' = Some s" by blast
  have now: "getsize E_unstable r ''d/a.zip'' = Some (r + 1)"
    and before: "getsize E_unstable (r - 1) ''d/a.zip'' = Some (r - 1 + 1)"
    by (simp_all add: E_unstable_def)
  have "(0::nat) \<le> 4" and "(1::nat) \<le> 4" by simp_all
  from s [rule_format, OF this(1)] s [rule_format, OF this(2)] now before
  have "s = r + 1" "s = r - 1 + 1" by simp_all
  with r show False by linarith
qed

text \<open>
  In \<open>E_unstable\<close> the candidate \<^verbatim>\<open>a.zip\<close> grows by a byte every second, while
  \<^verbatim>\<open>b.zip\<close>, also new, has a stable size all along.
\<close>

theorem stability_budget_exhausted_witness:
  "polled E_unstable ''d'' {} 180 0
   \<and> poll E_unstable ''d'' {} 0 = Inr (TopCandidate ''d/a.zip'')
   \<and> wait_for_download_completion E_unstable ''d'' {} 180 = Inr (None, 25)"
proof -
  have p: "polled E_unstable ''d'' {} 180 0" by (rule polled_first) simp
  from stability_budget_exhausted [OF p E_unstable_poll E_unstable_sizes] p E_unstable_poll
  show ?thesis by simp
qed

text \<open>
  With \<^verbatim>\<open>a.zip\<close> in the baseline the same environment yields \<^verbatim>\<open>b.zip\<close>: a
  second scan would have found it.
\<close>

lemma E_unstable_other_candidate:
  "wait_for_download_completion E_unstable ''d'' {''a.zip''} 180 = Inr (Some ''d/b.zip'', 4)"
  by code_simp


section \<open>A file that is complete when it is found\<close>

text \<open>
  The other direction of the stability check: when a poll chooses \<open>p\<close> and the five
  readings of its size from then on are equal and non-zero, the path is returned at the
  fifth reading, four seconds after the poll. A single new entry without an in-progress
  suffix, with a readable modification time, is the candidate a poll chooses.
\<close>

lemma size_stable_changed:
  assumes "getsize E t p = Some s" and "0 < s" and "int s \<noteq> lk"
  shows "size_stable E p (Suc n) st lk t = size_stable E p n 1 (int s) (t + 1)"
  using assms by (simp add: Let_def)

lemma size_stable_same:
  assumes "getsize E t p = Some s" and "0 < s" and "st + 1 < 5"
  shows "size_stable E p (Suc n) st (int s) t = size_stable E p n (st + 1) (int s) (t + 1)"
  using assms by (simp add: Let_def)

lemma size_stable_done:
  assumes "getsize E t p = Some s" and "0 < s" and "5 \<le> st + 1"
  shows "size_stable E p (Suc n) st (int s) t = (Some p, t)"
  using assms by (simp add: Let_def)

lemma size_stable_steady:
  assumes "\<And>k. k \<le> 4 \<Longrightarrow> getsize E (t + k) p = Some s" and "0 < s"
  shows "size_stable E p 25 0 (- 1) t = (Some p, t + 4)"
proof -
  have g0: "getsize E t p = Some s" using assms(1) [of 0] by simp
  have g1: "getsize E (t + 1) p = Some s" using assms(1) [of 1] by simp
  have g2: "getsize E (t + 1 + 1) p = Some s" using assms(1) [of 2] by (simp add: eval_nat_numeral)
  have g3: "getsize E (t + 1 + 1 + 1) p = Some s" using assms(1) [of 3] by (simp add: eval_nat_numeral)
  have g4: "getsize E (t + 1 + 1 + 1 + 1) p = Some s"
    using assms(1) [of 4] by (simp add: eval_nat_numeral)
  have "size_stable E p (Suc 24) 0 (- 1) t = size_stable E p 24 1 (int s) (t + 1)"
    by (rule size_stable_changed [OF g0 assms(2)]) simp
  also have "\<dots> = size_stable E p (Suc 23) 1 (int s) (t + 1)" by simp
  also have "\<dots> = size_stable E p 23 (1 + 1) (int s) (t + 1 + 1)"
    by (rule size_stable_same [OF g1 assms(2)]) simp
  also have "\<dots> = size_stable E p (Suc 22) (1 + 1) (int s) (t + 1 + 1)" by simp
  also have "\<dots> = size_stable E p 22 (1 + 1 + 1) (int s) (t + 1 + 1 + 1)"
    by (rule size_stable_same [OF g2 assms(2)]) simp
  also have "\<dots> = size_stable E p (Suc 21) (1 + 1 + 1) (int s) (t + 1 + 1 + 1)" by simp
  also have "\<dots> = size_stable E p 21 (1 + 1 + 1 + 1) (int s) (t + 1 + 1 + 1 + 1)"
    by (rule size_stable_same [OF g3 assms(2)]) simp
  also have "\<dots> = size_stable E p (Suc 20) (1 + 1 + 1 + 1) (int s) (t + 1 + 1 + 1 + 1)"
    by simp
  also have "\<dots> = (Some p, t + 1 + 1 + 1 + 1)"
    by (rule size_stable_done [OF g4 assms(2)]) simp
  finally show ?thesis by simp
qed

lemma stable_file_returned:
  assumes "polled E download_dir initial_files timeout t"
    and "poll E download_dir initial_files t = Inr (TopCandidate p)"
    and "\<And>k. k \<le> 4 \<Longrightarrow> getsize E (t + k) p = Some s" and "0 < s"
  shows "wait_for_download_completion E download_dir initial_files timeout = Inr (Some p, t + 4)"
proof -
  from polled_less [OF assms(1)] assms(2)
  have "scan E download_dir initial_files timeout t = Inr (size_stable E p 25 0 (- 1) t)"
    by (subst scan.simps) simp
  with size_stable_steady [OF assms(3,4)] polled_scan [OF assms(1)] show ?thesis
    by (simp add: wait_for_download_completion_def)
qed

lemma poll_single:
  assumes "listing E t = Entries l" and "distinct l"
    and "filter (\<lambda>f. \<not> endswith_any (lower f) partial_extensions)
           (filter (\<lambda>f. f \<notin> initial_files) l) = [f]"
    and "getmtime E t (path_join download_dir f) = Some m"
  shows "poll E download_dir initial_files t = Inr (TopCandidate (path_join download_dir f))"
proof -
  have cur: "current_files E t = Inr l"
    using assms(1,2) by (simp add: current_files_def)
  have cands: "candidate_files_with_mtime E t download_dir [f] = [(path_join download_dir f, m)]"
    using assms(4) by (simp add: candidate_files_with_mtime_def List.map_filter_def)
  show ?thesis
    by (simp add: poll_def cur assms(3) cands del: filter_filter)
qed

section \<open>Properties of the temporary path of a downloaded image\<close>

text \<open>
  C5. The claim expects \<^verbatim>\<open>imgs/photo_2.jpg\<close> for the name \<^verbatim>\<open>photo.jpg\<close> when
  \<^verbatim>\<open>imgs\<close> holds \<^verbatim>\<open>photo.jpg\<close> and \<^verbatim>\<open>photo_1.jpg\<close>. The loop builds its next
  path from the base name and the counter alone, without the folder, so the second path
  it tests is \<^verbatim>\<open>photo_1.jpg\<close> in the working directory; that path is free and is
  returned.
\<close>

theorem download_image_initial_path_photo:
  "download_image_initial_path (\<lambda>p. p \<in> {''imgs/photo.jpg'', ''imgs/photo_1.jpg''})
     ''https://media.printables.com/photo.jpg'' ''imgs'' (Some ''photo.jpg'')
   = Some ''photo_1.jpg''"
  by code_simp

text \<open>
  When the folder is the working directory itself (an empty \<open>destination_folder\<close>) the
  probed paths are the folder's entries, and the same loop does reach
  \<^verbatim>\<open>photo_2.jpg\<close>.
\<close>

lemma download_image_initial_path_cwd:
  "download_image_initial_path (\<lambda>p. p \<in> {''photo.jpg'', ''photo_1.jpg''})
     ''https://media.printables.com/photo.jpg'' [] (Some ''photo.jpg'') = Some ''photo_2.jpg''"
  by code_simp

text \<open>
  Whatever path the loop returns does not exist when it is returned.
\<close>

lemma probe_free:
  assumes "probe path_exists base_temp ext_temp counter_temp initial_file_path = Some q"
  shows "\<not> path_exists q"
proof (rule probe.raw_induct [where P = "\<lambda>pe b e c p y. \<not> pe y", OF _ assms])
  fix pr :: "(string \<Rightarrow> bool) \<Rightarrow> string \<Rightarrow> string \<Rightarrow> nat \<Rightarrow> string \<Rightarrow> string option"
    and pe b e c p y
  assume IH: "\<And>pe' b' e' c' p' y'. pr pe' b' e' c' p' = Some y' \<Longrightarrow> \<not> pe' y'"
    and eq: "(if pe p then pr pe b e (c + 1) (b @ ''_'' @ str_nat c @ e) else Some p) = Some y"
  show "\<not> pe y"
  proof (cases "pe p")
    case True
    with eq have "pr pe b e (c + 1) (b @ ''_'' @ str_nat c @ e) = Some y" by simp
    then show ?thesis by (rule IH)
  next
    case False
    with eq show ?thesis by simp
  qed
qed

section \<open>Properties of the move to the final folders\<close>




text \<open>
  C4 (as stated) fails. The temporary files directory holds \<^verbatim>\<open>a\<close> and \<^verbatim>\<open>b\<close>, and
  the move of \<^verbatim>\<open>b\<close> raises \<^verbatim>\<open>shutil.Error\<close> because the final directory already
  has an entry \<^verbatim>\<open>b\<close>. The loop goes on, \<^verbatim>\<open>a\<close> is moved and \<^verbatim>\<open>b\<close> stays, but
  the updated path list holds the rewritten paths of both files, not of \<^verbatim>\<open>a\<close> alone.
\<close>

theorem move_and_rewrite_failed_move_counterexample:
  "move_and_rewrite {} ''final/images'' ''final/files'' dirs_ab
       (example_details [''tmp/files/a'', ''tmp/files/b''])
     = Inr (dirs_ab\<lparr>temp_files_subdir := Some [''b''],
                    final_files_destination := [''b'', ''a'']\<rparr>,
            example_details [''final/files/a'', ''final/files/b''])
   \<and> example_details [''final/files/a'', ''final/files/b'']
       \<noteq> example_details [''final/files/a'']"
  by (simp add: move_and_rewrite_def relocate_def shutil_move_def dirs_ab_def
        example_details_def rewrite_paths_def path_join_def basename_def)

text \<open>
  The loop over a listing in any order: every entry that the final directory does not
  have yet is moved, every entry that it has already stays where it is, and a
  \<^verbatim>\<open>shutil.Error\<close> never ends the loop.
\<close>

lemma move_all_collisions:
  assumes "distinct items" and "set items \<subseteq> set src"
    and "\<And>x. x \<in> set items \<Longrightarrow> x \<notin> set dst \<Longrightarrow> x \<notin> locked"
  shows "move_all locked items (src, dst)
           = Inr (filter (\<lambda>x. x \<notin> set items \<or> x \<in> set dst) src,
                  dst @ filter (\<lambda>x. x \<notin> set dst) items)"
  using assms
proof (induction items arbitrary: src dst)
  case Nil
  show ?case by simp
next
  case (Cons x xs)
  show ?case
  proof (cases "x \<in> set dst")
    case True
    then have "shutil_move locked x (src, dst) = Inl ShutilError"
      by (simp add: shutil_move_def)
    then have "move_all locked (x # xs) (src, dst) = move_all locked xs (src, dst)"
      by simp
    also have "\<dots> = Inr (filter (\<lambda>y. y \<notin> set xs \<or> y \<in> set dst) src,
                          dst @ filter (\<lambda>y. y \<notin> set dst) xs)"
      using Cons.prems by (intro Cons.IH) auto
    also have "filter (\<lambda>y. y \<notin> set xs \<or> y \<in> set dst) src
                 = filter (\<lambda>y. y \<notin> set (x # xs) \<or> y \<in> set dst) src"
      using True by (intro filter_cong) auto
    finally show ?thesis using True by simp
  next
    case False
    with Cons.prems have "x \<notin> locked" "x \<in> set src" "x \<notin> set xs" by auto
    with False have "shutil_move locked x (src, dst) = Inr (removeAll x src, dst @ [x])"
      by (simp add: shutil_move_def)
    then have "move_all locked (x # xs) (src, dst)
                 = move_all locked xs (removeAll x src, dst @ [x])"
      by simp
    also have "\<dots> = Inr (filter (\<lambda>y. y \<notin> set xs \<or> y \<in> set (dst @ [x])) (removeAll x src),
                          (dst @ [x]) @ filter (\<lambda>y. y \<notin> set (dst @ [x])) xs)"
      using Cons.prems \<open>x \<notin> set xs\<close> by (intro Cons.IH) auto
    also have "filter (\<lambda>y. y \<notin> set xs \<or> y \<in> set (dst @ [x])) (removeAll x src)
                 = filter (\<lambda>y. y \<notin> set (x # xs) \<or> y \<in> set dst) src"
      using False by (auto simp: removeAll_filter_not_eq intro: filter_cong)
    also have "(dst @ [x]) @ filter (\<lambda>y. y \<notin> set (dst @ [x])) xs
                 = dst @ filter (\<lambda>y. y \<notin> set dst) (x # xs)"
      using False \<open>x \<notin> set xs\<close> by (auto intro: filter_cong)
    finally show ?thesis .
  qed
qed

text \<open>
  C4 (as amended). Let the temporary files directory hold \<open>a\<close> and \<open>b\<close>, listed in
  either order, let the move of \<open>a\<close> succeed and the move of \<open>b\<close> fail with
  \<^verbatim>\<open>shutil.Error\<close> (the final directory has an entry \<open>b\<close> already), and let the
  relocation of the images raise nothing. Then the relocation continues past the
  failure, \<open>a\<close> ends up in the final directory, \<open>b\<close> remains in the temporary one, and
  both path lists of the record are rewritten entry by entry to the final directory
  joined with the basename: every recorded path appears there, that of \<open>b\<close> included.
\<close>

theorem move_and_rewrite_partial_failure:
  assumes "temp_files_subdir d = Some l" and "l = [a, b] \<or> l = [b, a]"
    and "a \<noteq> b"
    and "a \<notin> set (final_files_destination d)" and "a \<notin> locked"
    and "b \<in> set (final_files_destination d)"
    and "relocate locked (temp_image_subdir d) (final_image_destination d) = Inr (ti, fi)"
  shows "move_and_rewrite locked image_dest files_dest d det
           = Inr (\<lparr>temp_image_subdir = ti, temp_files_subdir = Some [b],
                   final_image_destination = fi,
                   final_files_destination = final_files_destination d @ [a]\<rparr>,
                  det\<lparr>downloaded_filepaths :=
                        map (\<lambda>p. path_join files_dest (basename p)) (downloaded_filepaths det),
                      downloaded_image_filepaths :=
                        map (\<lambda>p. path_join image_dest (basename p))
                          (downloaded_image_filepaths det)\<rparr>)"
proof -
  have "move_all locked l (l, final_files_destination d)
          = Inr ([b], final_files_destination d @ [a])"
  proof (rule disjE [OF assms(2)])
    assume "l = [a, b]"
    then show ?thesis using assms(3-6) by (simp add: shutil_move_def)
  next
    assume "l = [b, a]"
    then show ?thesis using assms(3-6) by (simp add: shutil_move_def)
  qed
  with assms(1) have "relocate locked (temp_files_subdir d) (final_files_destination d)
          = Inr (Some [b], final_files_destination d @ [a])"
    by (simp add: relocate_def)
  with assms(7) show ?thesis
    by (simp add: move_and_rewrite_def rewrite_paths_def)
qed

text \<open>
  In \<open>dirs_ba\<close> the entry \<^verbatim>\<open>b\<close> is listed first: its move fails, and \<^verbatim>\<open>a\<close> is
  moved after it.
\<close>

theorem move_and_rewrite_partial_failure_witness:
  "move_and_rewrite {} ''final/images'' ''final/files'' dirs_ba
       (example_details [''tmp/files/a'', ''tmp/files/b''])
     = Inr (\<lparr>temp_image_subdir = Some [], temp_files_subdir = Some [''b''],
             final_image_destination = [], final_files_destination = [''b'', ''a'']\<rparr>,
            example_details [''final/files/a'', ''final/files/b''])"
proof -
  have "relocate {} (temp_image_subdir dirs_ba) (final_image_destination dirs_ba)
          = Inr (Some [], [])"
    by (simp add: dirs_ba_def relocate_def)
  from move_and_rewrite_partial_failure
         [where d = dirs_ba and a = "''a''" and b = "''b''" and locked = "{}"
            and l = "[''b'', ''a'']"
            and image_dest = "''final/images''" and files_dest = "''final/files''"
            and det = "example_details [''tmp/files/a'', ''tmp/files/b'']",
          OF _ _ _ _ _ _ this]
  show ?thesis
    by (simp add: dirs_ba_def example_details_def path_join_def basename_def)
qed




end
